theory Spec2Isabelle
  imports Complex_Main
begin

section \<open>Text primitives\<close>

text \<open>
  The bot handles Python \<open>str\<close> values.  A string is modelled as a \<open>char list\<close> whose
  elements stand for the code points below 256; \<open>len\<close> is \<open>length\<close>.  The library
  methods used by \<open>chief_bot.py\<close> are written out below with Python's behaviour on that
  range: \<open>str.lower\<close>, \<open>str.strip\<close>, \<open>str.rstrip(chars)\<close>, \<open>str.split()\<close>,
  \<open>str.startswith\<close>, \<open>str.endswith\<close>, the substring test \<open>sub in s\<close> and
  \<open>str.rfind(ch, 0, end)\<close>.
\<close>

text \<open>
  Whitespace as \<open>str.strip()\<close> and \<open>str.split()\<close> see it (\<open>str.isspace\<close>): tab to
  carriage return, the separators \<open>0x1C\<close> to \<open>0x1F\<close>, the space, \<open>0x85\<close> and \<open>0xA0\<close>.
  \<open>str.lower\<close> moves the capital letters \<open>A\<close> to \<open>Z\<close> and those of the range
  \<open>0xC0\<close> to \<open>0xDE\<close> (the multiplication sign \<open>0xD7\<close> apart) up by 32.
\<close>

definition is_space :: "char \<Rightarrow> bool" where
  "is_space c =
     (let n = (of_char c :: nat)
      in (9 \<le> n \<and> n \<le> 13) \<or> (28 \<le> n \<and> n \<le> 32) \<or> n = 133 \<or> n = 160)"

definition lower_char :: "char \<Rightarrow> char" where
  "lower_char c =
     (let n = (of_char c :: nat)
      in if (65 \<le> n \<and> n \<le> 90) \<or> (192 \<le> n \<and> n \<le> 222 \<and> n \<noteq> 215)
         then char_of (n + 32) else c)"

definition lower :: "string \<Rightarrow> string" where
  "lower s = map lower_char s"

definition lstrip :: "string \<Rightarrow> string" where
  "lstrip s = dropWhile is_space s"

definition rstrip_ws :: "string \<Rightarrow> string" where
  "rstrip_ws s = rev (dropWhile is_space (rev s))"

definition strip :: "string \<Rightarrow> string" where
  "strip s = rstrip_ws (lstrip s)"

definition rstrip :: "string \<Rightarrow> string \<Rightarrow> string" where
  "rstrip s chars = rev (dropWhile (\<lambda>c. c \<in> set chars) (rev s))"

text \<open>\<open>s.split()\<close>: the maximal runs of non-whitespace characters, in order.\<close>

fun split_ws :: "string \<Rightarrow> string list" where
  "split_ws [] = []"
| "split_ws (c # cs) =
     (if is_space c then split_ws cs
      else (case cs of
              [] \<Rightarrow> [[c]]
            | d # _ \<Rightarrow>
                if is_space d then [c] # split_ws cs
                else (case split_ws cs of
                        [] \<Rightarrow> [[c]]
                      | w # ws \<Rightarrow> (c # w) # ws)))"

fun startswith :: "string \<Rightarrow> string \<Rightarrow> bool" where
  "startswith s [] = True"
| "startswith [] (p # ps) = False"
| "startswith (c # cs) (p # ps) = (c = p \<and> startswith cs ps)"

definition endswith :: "string \<Rightarrow> string \<Rightarrow> bool" where
  "endswith s p = startswith (rev s) (rev p)"

text \<open>\<open>contains s sub\<close> is Python's \<open>sub in s\<close>.\<close>

fun contains :: "string \<Rightarrow> string \<Rightarrow> bool" where
  "contains [] sub = (sub = [])"
| "contains (c # cs) sub = (startswith (c # cs) sub \<or> contains cs sub)"

text \<open>
  \<open>rfind_from ch s i found\<close> scans \<open>s\<close>, whose first character has index \<open>i\<close>, and keeps
  the index of the last occurrence of \<open>ch\<close>; \<open>rfind s ch e\<close> is \<open>s.rfind(ch, 0, e)\<close>:
  the highest index below \<open>e\<close> holding \<open>ch\<close>, or \<open>-1\<close>.
\<close>

fun rfind_from :: "char \<Rightarrow> string \<Rightarrow> nat \<Rightarrow> int \<Rightarrow> int" where
  "rfind_from ch [] i found = found"
| "rfind_from ch (c # cs) i found =
     rfind_from ch cs (Suc i) (if c = ch then int i else found)"

definition rfind :: "string \<Rightarrow> char \<Rightarrow> nat \<Rightarrow> int" where
  "rfind s ch e = rfind_from ch (take e s) 0 (- 1)"

section \<open>Utterance classifier\<close>

subsection \<open>\<open>is_farewell\<close>\<close>

definition FAREWELL_PATTERNS :: "string list" where
  "FAREWELL_PATTERNS =
     [''bye'', ''goodbye'', ''see you'', ''later'', ''take care'', ''night'', ''good night'',
      ''gotta go'', ''talk to you later'', ''catch you later'', ''i'm done'', ''end call'',
      ''hang up'', ''disconnect'', ''that's all'', ''thanks bye'', ''thank you bye'']"

definition farewell_keywords :: "string list" where
  "farewell_keywords =
     [''bye'', ''goodbye'', ''goodnight'', ''later'', ''disconnect'', ''hang up'', ''end call'']"

text \<open>\<open>message.lower().strip().rstrip("!?.,:;")\<close>, shared by the two classifiers.\<close>

definition normalize :: "string \<Rightarrow> string" where
  "normalize message = rstrip (strip (lower message)) ''!?.,:;''"

text \<open>
  The pattern collections are Python sets.  The loop over \<open>FAREWELL_PATTERNS\<close> returns
  \<open>True\<close> at the first pattern that is a prefix or a suffix, so its result is the
  existence of such a pattern, whatever the iteration order.
\<close>

definition is_farewell :: "string \<Rightarrow> bool" where
  "is_farewell message =
     (let msg = normalize message
      in if msg \<in> set FAREWELL_PATTERNS then True
         else if list_ex (\<lambda>pattern. startswith msg pattern \<or> endswith msg pattern)
                   FAREWELL_PATTERNS then True
         else if set (split_ws msg) \<inter> set farewell_keywords \<noteq> {} then True
         else False)"

subsection \<open>\<open>is_simple_chat\<close>\<close>

definition SIMPLE_CHAT_PATTERNS :: "string list" where
  "SIMPLE_CHAT_PATTERNS =
     [''hi'', ''hello'', ''hey'', ''howdy'', ''hiya'', ''yo'',
      ''good morning'', ''good afternoon'', ''good evening'', ''good night'',
      ''bye'', ''goodbye'', ''see you'', ''later'', ''take care'', ''night'',
      ''thanks'', ''thank you'', ''appreciate it'', ''thx'',
      ''yes'', ''no'', ''yeah'', ''yep'', ''nope'', ''sure'', ''okay'', ''ok'', ''yup'',
      ''right'', ''correct'', ''got it'', ''understood'', ''alright'', ''fine'',
      ''cool'', ''nice'', ''great'', ''awesome'', ''perfect'', ''sounds good'']"

definition question_words :: "string list" where
  "question_words =
     [''what'', ''where'', ''when'', ''who'', ''why'', ''how'', ''which'', ''check'', ''find'',
      ''get'', ''show'', ''tell'']"

text \<open>
  In the loop over \<open>SIMPLE_CHAT_PATTERNS\<close> the first pattern that matches decides, and
  what it decides does not depend on the pattern: the function returns whether the
  message is phrased as a request.  So the loop is again an existence test.
\<close>

definition is_simple_chat :: "string \<Rightarrow> bool" where
  "is_simple_chat message =
     (let msg = normalize message
      in if msg \<in> set SIMPLE_CHAT_PATTERNS then True
         else if list_ex (\<lambda>pattern. startswith msg (pattern @ '' '')
                                   \<or> startswith msg (pattern @ '',''))
                   SIMPLE_CHAT_PATTERNS
         then (if contains msg '' can '' \<or> contains msg '' could ''
                  \<or> contains msg '' would '' \<or> CHR ''?'' \<in> set message
               then False else True)
         else (let words = split_ws msg
               in if length words \<le> 2
                  then (if \<not> list_ex (\<lambda>w. w \<in> set question_words) words
                           \<and> CHR ''?'' \<notin> set message
                        then True else False)
                  else False))"

subsection \<open>\<open>is_echo\<close>\<close>

text \<open>
  \<open>is_echo\<close> divides two set sizes.  Python's \<open>/\<close> raises \<open>ZeroDivisionError\<close> on a
  zero divisor, so the division is modelled with an error result and \<open>is_echo\<close> returns
  either the error it would raise or its boolean.  The threshold and the ratio are real
  numbers; the rounding of Python's floats is not modelled.
\<close>

datatype py_error = ZeroDivisionError

definition truediv :: "nat \<Rightarrow> nat \<Rightarrow> py_error + real" where
  "truediv a b = (if b = 0 then Inl ZeroDivisionError else Inr (real a / real b))"

definition filler_words :: "string set" where
  "filler_words =
     set [''the'', ''a'', ''an'', ''is'', ''are'', ''was'', ''were'', ''to'', ''and'', ''or'',
          ''i'', ''you'', ''it'']"

definition word_set :: "string \<Rightarrow> string set" where
  "word_set s = set (split_ws (lower s))"

fun echo_loop :: "string set \<Rightarrow> string list \<Rightarrow> real \<Rightarrow> py_error + bool" where
  "echo_loop user_words [] threshold = Inr False"
| "echo_loop user_words (bot_response # rest) threshold =
     (let bot_words = word_set bot_response
      in if bot_words = {} then echo_loop user_words rest threshold
         else
           (let common_words = user_words \<inter> bot_words;
                meaningful_common = common_words - filler_words;
                meaningful_user = user_words - filler_words
            in if card meaningful_user > 0
               then (case truediv (card meaningful_common) (card meaningful_user) of
                       Inl e \<Rightarrow> Inl e
                     | Inr overlap_ratio \<Rightarrow>
                         if overlap_ratio \<ge> threshold then Inr True
                         else echo_loop user_words rest threshold)
               else echo_loop user_words rest threshold))"

definition is_echo :: "string \<Rightarrow> string list \<Rightarrow> real \<Rightarrow> py_error + bool" where
  "is_echo user_message recent_bot_responses threshold =
     (if recent_bot_responses = [] then Inr False
      else (let user_words = word_set user_message
            in if card user_words < 2 then Inr False
               else echo_loop user_words recent_bot_responses threshold))"

text \<open>
  The specification's echo ratio for one recent response, in its own words: the candidate's
  words shared with the response, meaningless words removed, over the candidate's words,
  meaningless words removed.  (In HOL a quotient with divisor \<open>0\<close> is \<open>0\<close>.)
\<close>

definition spec_ratio :: "string \<Rightarrow> string \<Rightarrow> real" where
  "spec_ratio candidate response =
     real (card ((word_set candidate \<inter> word_set response) - filler_words))
       / real (card (word_set candidate - filler_words))"

section \<open>Gateway client: \<open>stream_message\<close>\<close>



datatype stream_end = Returned | Raised string










section \<open>Streaming sentence chunker\<close>

definition is_terminator :: "char \<Rightarrow> bool" where
  "is_terminator c = (c = CHR ''.'' \<or> c = CHR ''!'' \<or> c = CHR ''?'' \<or> c = CHR 0x0A)"

fun find_terminator :: "string \<Rightarrow> nat option" where
  "find_terminator [] = None"
| "find_terminator (c # cs) =
     (if is_terminator c then Some 0 else map_option Suc (find_terminator cs))"

text \<open>
  The two cutting rules applied to the buffer after a delta is appended: \<open>Some\<close> of
  \<open>send_text\<close> and the remaining buffer when \<open>should_send\<close> becomes true.
\<close>

definition cut_buffer :: "string \<Rightarrow> (string \<times> string) option" where
  "cut_buffer text_buffer =
     (case find_terminator text_buffer of
        Some i \<Rightarrow>
          (let end_idx = Suc i + length (takeWhile (\<lambda>c. c = CHR '' '' \<or> c = CHR 0x0A)
                                           (drop (Suc i) text_buffer))
           in Some (take end_idx text_buffer, drop end_idx text_buffer))
      | None \<Rightarrow>
          if length text_buffer > 150
          then (let break_point = rfind text_buffer (CHR '' '') 150
                in if break_point > 50
                   then Some (take (nat (break_point + 1)) text_buffer,
                              drop (nat (break_point + 1)) text_buffer)
                   else None)
          else None)"

record stream_state =
  full_response :: string
  text_buffer :: string
  chunks_sent :: nat
  first_chunk_received :: bool

definition stream_start :: stream_state where
  "stream_start =
     \<lparr>full_response = [], text_buffer = [], chunks_sent = 0, first_chunk_received = False\<rparr>"

text \<open>
  One iteration of \<open>async for chunk in gateway_client.stream_message(...)\<close>: the new
  local state and the texts queued as \<open>TTSSpeakFrame\<close> (none or one).
\<close>

definition on_chunk :: "stream_state \<Rightarrow> string \<Rightarrow> stream_state \<times> string list" where
  "on_chunk st chunk =
     (let st1 = st\<lparr>full_response := full_response st @ chunk,
                   text_buffer := text_buffer st @ chunk,
                   first_chunk_received := True\<rparr>
      in case cut_buffer (text_buffer st1) of
           None \<Rightarrow> (st1, [])
         | Some (send_text, rest) \<Rightarrow>
             if strip send_text \<noteq> []
             then (st1\<lparr>text_buffer := rest, chunks_sent := chunks_sent st1 + 1\<rparr>, [send_text])
             else (st1\<lparr>text_buffer := rest\<rparr>, []))"

text \<open>After the loop: \<open>if text_buffer.strip(): ...\<close> sends what is left.\<close>

definition flush :: "stream_state \<Rightarrow> stream_state \<times> string list" where
  "flush st =
     (if strip (text_buffer st) \<noteq> []
      then (st\<lparr>chunks_sent := chunks_sent st + 1\<rparr>, [text_buffer st])
      else (st, []))"

text \<open>
  Two fragments of 200 characters for worked examples: \<open>k\<close> letters, one space and
  letters again; and 149 letters followed by 51 spaces.
\<close>

definition sample_fragment :: "nat \<Rightarrow> string" where
  "sample_fragment k = replicate k (CHR ''a'') @ '' '' @ replicate (199 - k) (CHR ''b'')"

definition blank_tail_fragment :: string where
  "blank_tail_fragment = replicate 149 (CHR ''a'') @ replicate 51 (CHR '' '')"

text \<open>
  An invariant of the loop: the buffer holds characters of the response only, and once a
  chunk has been sent the response has a character that is not whitespace.
\<close>

definition sent_inv :: "stream_state \<Rightarrow> bool" where
  "sent_inv st =
     (set (text_buffer st) \<subseteq> set (full_response st)
      \<and> (0 < chunks_sent st \<longrightarrow> strip (full_response st) \<noteq> []))"


section \<open>Turn arbitrator\<close>

text \<open>
  What \<open>intercept_and_forward\<close> and \<open>on_app_message\<close> hand to their collaborators:
  \<open>task.queue_frame\<close> of a \<open>TTSSpeakFrame\<close>, an \<open>EndFrame\<close> or a
  \<open>StartInterruptionFrame\<close>, \<open>post_transcript(call_id, role, text)\<close>, the call
  \<open>gateway_client.stream_message(user_message)\<close>, and \<open>original_push(frame)\<close>, which
  passes the frame on to the local language model.
\<close>

datatype out_event =
    TTSSpeak string
  | EndFrame
  | StartInterruption
  | PostTranscript string string
  | GatewayStream string
  | OriginalPush

text \<open>The \<open>nonlocal\<close> variables shared by all invocations of the interceptor.\<close>

record arb_state =
  recent_immediate :: "string list"
  recent_fillers :: "string list"
  recent_bot_responses :: "string list"
  last_bot_speech_end :: real
  bot_is_speaking :: bool
  last_processed_message :: string
  processing_in_progress :: bool

definition initial_state :: arb_state where
  "initial_state =
     \<lparr>recent_immediate = [], recent_fillers = [], recent_bot_responses = [],
      last_bot_speech_end = 0, bot_is_speaking = False, last_processed_message = [],
      processing_in_progress = False\<rparr>"

subsection \<open>The gate\<close>

datatype gate_result =
    DropDuplicate | DropBusy | DropEchoSpeaking | DropCooldown | DropEcho
  | Accept | GateRaised py_error

text \<open>
  The code from the deduplication test to \<open>last_processed_message = user_message\<close>; it
  has no suspension point, so it runs as one step on the shared state.  \<open>now\<close> is the
  value of \<open>time.time()\<close>.
\<close>

definition gate :: "arb_state \<Rightarrow> real \<Rightarrow> string \<Rightarrow> gate_result \<times> arb_state" where
  "gate s now user_message =
     (if user_message = last_processed_message s then (DropDuplicate, s)
      else if processing_in_progress s then (DropBusy, s)
      else
        (case (if bot_is_speaking s
               then is_echo user_message (recent_bot_responses s) (3 / 10)
               else Inr False) of
           Inl e \<Rightarrow> (GateRaised e, s)
         | Inr True \<Rightarrow> (DropEchoSpeaking, s)
         | Inr False \<Rightarrow>
             (let s1 = (if bot_is_speaking s then s\<lparr>bot_is_speaking := False\<rparr> else s);
                  time_since_bot = now - last_bot_speech_end s1
              in if time_since_bot < 1 then (DropCooldown, s1)
                 else
                   (case is_echo user_message (recent_bot_responses s1) (4 / 10) of
                      Inl e \<Rightarrow> (GateRaised e, s1)
                    | Inr True \<Rightarrow> (DropEcho, s1)
                    | Inr False \<Rightarrow>
                        (Accept, s1\<lparr>processing_in_progress := True,
                                    last_processed_message := user_message\<rparr>)))))"

subsection \<open>Acknowledgment and filler phrases\<close>

definition IMMEDIATE_PHRASES :: "string list" where
  "IMMEDIATE_PHRASES =
     [''Let me check on that.'', ''Looking into that now.'', ''On it.'', ''Let me see.'',
      ''Checking now.'']"

definition FILLER_PHRASES :: "string list" where
  "FILLER_PHRASES =
     [''Still working on that...'', ''One moment...'', ''Just a sec...'',
      ''Give me a moment...'', ''Hang on...'', ''Almost there...'', ''Still on it...'']"

text \<open>
  The rotation both timers use.  \<open>random.choice(available)\<close> is the element at position
  \<open>r mod len(available)\<close> for a number \<open>r\<close> supplied from outside.
\<close>

definition pick_phrase :: "string list \<Rightarrow> string list \<Rightarrow> nat \<Rightarrow> nat \<Rightarrow> string \<times> string list" where
  "pick_phrase phrases recent cap r =
     (let available = filter (\<lambda>p. p \<notin> set recent) phrases;
          recent1 = (if available = [] then [] else recent);
          available1 = (if available = [] then phrases else available);
          phrase = available1 ! (r mod length available1);
          recent2 = recent1 @ [phrase]
      in (phrase, if length recent2 > cap then tl recent2 else recent2))"

definition send_acknowledgment :: "arb_state \<Rightarrow> nat \<Rightarrow> arb_state \<times> string" where
  "send_acknowledgment s r =
     (case pick_phrase IMMEDIATE_PHRASES (recent_immediate s) 3 r of
        (immediate, recent) \<Rightarrow> (s\<lparr>recent_immediate := recent\<rparr>, immediate))"

definition send_filler :: "arb_state \<Rightarrow> nat \<Rightarrow> arb_state \<times> string" where
  "send_filler s r =
     (case pick_phrase FILLER_PHRASES (recent_fillers s) 4 r of
        (filler, recent) \<Rightarrow> (s\<lparr>recent_fillers := recent\<rparr>, filler))"

text \<open>The arguments of the two \<open>asyncio.sleep\<close> calls that start the timer tasks.\<close>

definition ack_sleep :: real where
  "ack_sleep = 3"

definition filler_sleep :: real where
  "filler_sleep = 4"

subsection \<open>One turn on a time line\<close>

text \<open>
  What the environment does during one accepted turn: how long the posting of the user
  transcript takes, the deltas the gateway stream yields with their arrival times, when
  and how the stream ends, how long the posting of the assistant transcript takes, and
  the two random numbers.  Times are seconds on the clock of \<open>time.time()\<close>.
\<close>

record turn_script =
  post_user_delay :: real
  stream_deltas :: "(real \<times> string) list"
  stream_close :: "real \<times> stream_end"
  post_bot_delay :: real
  ack_choice :: nat
  filler_choice :: nat

fun feed :: "stream_state \<Rightarrow> (real \<times> string) list \<Rightarrow> stream_state \<times> (real \<times> out_event) list" where
  "feed st [] = (st, [])"
| "feed st ((t, chunk) # rest) =
     (case on_chunk st chunk of
        (st1, out) \<Rightarrow>
          (case feed st1 rest of
             (st2, evs) \<Rightarrow> (st2, map (\<lambda>x. (t, TTSSpeak x)) out @ evs)))"

text \<open>The \<open>else\<close> branch after the stream: the response is recorded and the cooldown set.\<close>

definition finish_response :: "arb_state \<Rightarrow> real \<Rightarrow> string \<Rightarrow> arb_state" where
  "finish_response s now response =
     (let r1 = recent_bot_responses s @ [response];
          r2 = (if length r1 > 3 then tl r1 else r1);
          estimated_tts_duration = real (length response) / 15
      in s\<lparr>recent_bot_responses := r2,
           last_bot_speech_end := now + estimated_tts_duration,
           bot_is_speaking := False,
           processing_in_progress := False\<rparr>)"

definition finally_reset :: "arb_state \<Rightarrow> arb_state" where
  "finally_reset s = s\<lparr>processing_in_progress := False, bot_is_speaking := False\<rparr>"

text \<open>
  The turn after the gate has accepted \<open>user_message\<close> at time \<open>t0\<close>, with no other turn
  interleaved.  Both timer tasks are created at \<open>t1\<close>, when the posting of the user
  transcript has returned, and each wakes after its own sleep.  A timer speaks only if
  it wakes before the first delta has arrived and before the stream has ended (then the
  \<open>except\<close> block sets \<open>first_chunk_received\<close> and the \<open>finally\<close> block cancels the
  tasks).  The result is every event with its time, and the shared state at the end.
\<close>

definition run_turn :: "arb_state \<Rightarrow> real \<Rightarrow> string \<Rightarrow> turn_script \<Rightarrow> (real \<times> out_event) list \<times> arb_state" where
  "run_turn s t0 user_message sc =
     (let t1 = t0 + post_user_delay sc;
          simple_chat = is_simple_chat user_message;
          t_end = fst (stream_close sc);
          t_first = (case stream_deltas sc of [] \<Rightarrow> t_end | (t, _) # _ \<Rightarrow> t);
          ack_fires = (\<not> simple_chat \<and> t1 + ack_sleep < t_first);
          ack = send_acknowledgment s (ack_choice sc);
          s1 = (if ack_fires then fst ack else s);
          ack_events = (if ack_fires then [(t1 + ack_sleep, TTSSpeak (snd ack))] else []);
          filler_fires = (\<not> simple_chat \<and> t1 + filler_sleep < t_first);
          fil = send_filler s1 (filler_choice sc);
          s2 = (if filler_fires then fst fil else s1);
          filler_events =
            (if filler_fires then [(t1 + filler_sleep, TTSSpeak (snd fil))] else []);
          s3 = (if stream_deltas sc = [] then s2 else s2\<lparr>bot_is_speaking := True\<rparr>);
          fed = feed stream_start (stream_deltas sc);
          before = [(t0, PostTranscript ''user'' user_message), (t1, GatewayStream user_message)]
                     @ ack_events @ filler_events @ snd fed
      in case snd (stream_close sc) of
           Raised e \<Rightarrow> (before @ [(t_end, OriginalPush)], finally_reset s3)
         | Returned \<Rightarrow>
             (let flushed = flush (fst fed);
                  st = fst flushed;
                  spoken = before @ map (\<lambda>x. (t_end, TTSSpeak x)) (snd flushed)
              in if chunks_sent st = 0 \<or> strip (full_response st) = []
                 then (spoken @ [(t_end, OriginalPush)], finally_reset s3)
                 else
                   (let s4 = finish_response s3 t_end (full_response st);
                        t_posted = t_end + post_bot_delay sc
                    in (spoken @ [(t_end, PostTranscript ''assistant'' (full_response st))]
                          @ (if is_farewell user_message
                             then [(t_posted + 3, EndFrame)] else []),
                        finally_reset s4))))"

text \<open>
  \<open>intercept_and_forward\<close> on a frame whose last message has role \<open>user\<close> and content
  \<open>user_message\<close>, arriving at time \<open>now\<close>: a dropped utterance returns at once, before
  anything is posted, requested or pushed.
\<close>

definition intercept_and_forward :: "arb_state \<Rightarrow> real \<Rightarrow> string \<Rightarrow> turn_script \<Rightarrow> (real \<times> out_event) list \<times> arb_state" where
  "intercept_and_forward s now user_message sc =
     (case gate s now user_message of
        (Accept, s1) \<Rightarrow> run_turn s1 now user_message sc
      | (_, s1) \<Rightarrow> ([], s1))"

subsection \<open>\<open>on_app_message\<close>\<close>




subsection \<open>Worked examples\<close>

text \<open>
  A gateway that yields nothing and times out at 220; one that answers at 103 and
  completes at 104.
\<close>

definition silent_script :: turn_script where
  "silent_script =
     \<lparr>post_user_delay = 0, stream_deltas = [],
      stream_close = (220, Raised ''Gateway timeout''), post_bot_delay = 0,
      ack_choice = 0, filler_choice = 0\<rparr>"

definition reply_script :: turn_script where
  "reply_script =
     \<lparr>post_user_delay = 0, stream_deltas = [(103, ''It is noon.'')],
      stream_close = (104, Returned), post_bot_delay = 0,
      ack_choice = 0, filler_choice = 0\<rparr>"



section \<open>Verification\<close>


subsection \<open>The classifiers\<close>

lemmas text_eval = is_space_def lower_char_def lower_def lstrip_def rstrip_ws_def strip_def
  rstrip_def endswith_def normalize_def char_of_def word_set_def bit_Suc_0_iff

lemma last_dropWhile: "dropWhile P xs \<noteq> [] \<Longrightarrow> last (dropWhile P xs) = last xs"
  by (induction xs) (auto split: if_splits)

lemma lower_char_not_space: "\<not> is_space c \<Longrightarrow> \<not> is_space (lower_char c)"
  by (auto simp: is_space_def lower_char_def Let_def)

lemma lower_append: "lower (s @ t) = lower s @ lower t"
  by (simp add: lower_def)

lemma lower_bang: "lower ''!'' = ''!''"
  by (simp add: lower_def lower_char_def)

lemma strip_append_bang:
  assumes "u = [] \<or> \<not> is_space (last u)"
  shows "strip (u @ ''!'') = strip u @ ''!''"
proof (cases "u = []")
  case True
  then show ?thesis by (simp add: strip_def lstrip_def rstrip_ws_def is_space_def)
next
  case False
  with assms have ns: "\<not> is_space (last u)" by simp
  from False have mem: "last u \<in> set u" by simp
  have l1: "lstrip (u @ ''!'') = lstrip u @ ''!''"
    unfolding lstrip_def using mem ns by (simp add: dropWhile_append1)
  have ne: "lstrip u \<noteq> []"
    unfolding lstrip_def using mem ns by (auto simp: dropWhile_eq_Nil_conv)
  have "last (lstrip u) = last u"
    using ne unfolding lstrip_def by (rule last_dropWhile)
  with ns ne have r: "rstrip_ws (lstrip u) = lstrip u"
    unfolding rstrip_ws_def by (cases "lstrip u" rule: rev_cases) auto
  have "rstrip_ws (lstrip u @ ''!'') = lstrip u @ ''!''"
    unfolding rstrip_ws_def by (simp add: is_space_def)
  with l1 r show ?thesis by (simp add: strip_def)
qed

lemma rstrip_append_bang: "rstrip (w @ ''!'') ''!?.,:;'' = rstrip w ''!?.,:;''"
  by (simp add: rstrip_def)

lemma normalize_append_bang:
  assumes "t = [] \<or> \<not> is_space (last t)"
  shows "normalize (t @ ''!'') = normalize t"
proof -
  have "lower t = [] \<or> \<not> is_space (last (lower t))"
    using assms by (auto simp: lower_def last_map lower_char_not_space)
  then have "strip (lower t @ ''!'') = strip (lower t) @ ''!''"
    by (rule strip_append_bang)
  then show ?thesis
    by (simp add: normalize_def lower_append lower_bang rstrip_append_bang)
qed

text \<open>
  Claim C9, as the code has it.  \<open>is_farewell\<close> strips whitespace first and trailing
  punctuation second.  For every text \<open>t\<close> that does not end in a whitespace character
  (the empty text included), appending an exclamation mark does not change the
  classification: \<open>is_farewell (t + "!") = is_farewell t\<close>.  When \<open>t\<close> ends in
  whitespace, the mark is stripped but the whitespace before it stays in the normalised
  message, and a suffix pattern no longer matches.
\<close>

theorem farewell_bang: 
  assumes "t = [] \<or> \<not> is_space (last t)"
  shows "is_farewell (t @ ''!'') = is_farewell t"
  using normalize_append_bang [OF assms] by (simp add: is_farewell_def)

theorem farewell_bang_witness:
  "\<not> is_space (last ''Goodbye'') \<and> is_farewell ''Goodbye!'' = is_farewell ''Goodbye''
     \<and> is_farewell ''Goodbye''"
  using farewell_bang [of "''Goodbye''"]
  by (simp add: is_farewell_def text_eval FAREWELL_PATTERNS_def)

theorem farewell_bang_counterexample:
  "is_farewell ''ok take care '' \<noteq> is_farewell (''ok take care '' @ ''!'')"
  by (simp add: is_farewell_def text_eval FAREWELL_PATTERNS_def farewell_keywords_def)

lemma echo_loop_total: "\<exists>b. echo_loop uw rs t = Inr b"
  by (induction rs) (auto simp: Let_def truediv_def)

lemma echo_loop_no_meaning:
  "card (uw - filler_words) = 0 \<Longrightarrow> echo_loop uw rs t = Inr False"
  by (induction rs) (auto simp: Let_def)

text \<open>
  Claim C10.  The three classifiers return a value on every input.  \<open>is_farewell\<close> and
  \<open>is_simple_chat\<close> use only string operations that cannot fail; on the empty string
  they return \<open>False\<close> and \<open>True\<close>.  The one operation of \<open>is_echo\<close> that can fail
  is its division, and \<open>is_echo\<close> never returns the error: for every message, list of
  responses and threshold it returns a boolean.  When every word of the message is a
  meaningless word, the divisor would be zero, every response is skipped and the result
  is \<open>False\<close>.
\<close>

theorem classifiers_total:
  "(\<exists>b. is_echo user_message recent threshold = Inr b)
   \<and> (card (word_set user_message - filler_words) = 0
        \<longrightarrow> is_echo user_message recent threshold = Inr False)
   \<and> is_echo [] recent threshold = Inr False
   \<and> is_farewell [] = False \<and> is_simple_chat [] = True"
proof -
  have a: "\<exists>b. is_echo user_message recent threshold = Inr b"
    using echo_loop_total [of "word_set user_message" recent threshold]
    by (auto simp: is_echo_def Let_def)
  have b: "card (word_set user_message - filler_words) = 0
        \<longrightarrow> is_echo user_message recent threshold = Inr False"
    using echo_loop_no_meaning by (simp add: is_echo_def Let_def)
  have c: "is_echo [] recent threshold = Inr False"
    by (simp add: is_echo_def word_set_def lower_def)
  have d: "is_farewell [] = False"
    by (simp add: is_farewell_def text_eval FAREWELL_PATTERNS_def farewell_keywords_def)
  have e: "is_simple_chat [] = True"
    by (simp add: is_simple_chat_def text_eval SIMPLE_CHAT_PATTERNS_def question_words_def)
  from a b c d e show ?thesis by blast
qed

theorem classifiers_total_witness:
  "card (word_set ''the a'' - filler_words) = 0
   \<and> is_echo ''the a'' [''the a''] (3 / 10) = Inr False
   \<and> is_echo ''hello world'' [''hello there''] (3 / 10) = Inr True"
proof -
  have "card (word_set ''the a'' - filler_words) = 0"
    by (simp add: text_eval filler_words_def)
  moreover have "is_echo ''hello world'' [''hello there''] (3 / 10) = Inr True"
    by (simp add: is_echo_def truediv_def text_eval filler_words_def)
  ultimately show ?thesis
    using classifiers_total [of "''the a''" "[''the a'']" "3 / 10"] by simp
qed

lemma echo_loop_ratio:
  assumes "0 < t"
  shows "echo_loop (word_set c) rs t = Inr (\<exists>r\<in>set rs. t \<le> spec_ratio c r)"
proof (induction rs)
  case Nil
  then show ?case by simp
next
  case (Cons r rs)
  show ?case
  proof (cases "word_set r = {}")
    case True
    then have "spec_ratio c r = 0" by (simp add: spec_ratio_def)
    with True Cons assms show ?thesis by (simp add: Let_def)
  next
    case False
    show ?thesis
    proof (cases "card (word_set c - filler_words) > 0")
      case True
      then show ?thesis using False Cons
        by (auto simp: Let_def truediv_def spec_ratio_def)
    next
      case False
      then have "spec_ratio c r = 0" by (simp add: spec_ratio_def)
      with False Cons assms \<open>word_set r \<noteq> {}\<close> show ?thesis by (simp add: Let_def)
    qed
  qed
qed

text \<open>
  Claim C5, as the code has it.  For every candidate with at least two distinct
  lower-cased words, every non-empty list of recent responses and every threshold
  \<open>t > 0\<close>, \<open>is_echo\<close> is true exactly when the largest ratio over the recent responses
  is at least \<open>t\<close>.  \<open>is_echo\<close> is false when the list is empty, and when the candidate
  has fewer than two distinct words.  The code counts the elements of the set of words,
  so a word said twice counts once; and it skips a response without words, which matters
  only for a threshold that is not positive.
\<close>

theorem is_echo_max_ratio:
  "(2 \<le> card (word_set candidate) \<and> recent \<noteq> [] \<and> 0 < t \<longrightarrow>
      is_echo candidate recent t = Inr (t \<le> Max (spec_ratio candidate ` set recent)))
   \<and> is_echo candidate [] t = Inr False
   \<and> (card (word_set candidate) < 2 \<longrightarrow> is_echo candidate recent t = Inr False)"
proof -
  have "is_echo candidate recent t = Inr (t \<le> Max (spec_ratio candidate ` set recent))"
    if "2 \<le> card (word_set candidate)" "recent \<noteq> []" "0 < t"
  proof -
    have "(t \<le> Max (spec_ratio candidate ` set recent))
            = (\<exists>r\<in>set recent. t \<le> spec_ratio candidate r)"
      using that(2) by (simp add: Max_ge_iff)
    then show ?thesis
      using that echo_loop_ratio [of t candidate recent] by (simp add: is_echo_def Let_def)
  qed
  then show ?thesis by (simp add: is_echo_def Let_def)
qed

theorem is_echo_max_ratio_witness:
  "2 \<le> card (word_set ''hello big world'') \<and> is_echo ''hello big world'' [''nothing'', ''Hello world''] (3 / 10) = Inr True
   \<and> Max (spec_ratio ''hello big world'' ` set [''nothing'', ''Hello world'']) = 2 / 3"
  using is_echo_max_ratio [of "''hello big world''" "[''nothing'', ''Hello world'']" "3 / 10"]
  by (simp add: text_eval filler_words_def spec_ratio_def)

theorem is_echo_max_ratio_counterexample:
  "length (split_ws ''hello hello'') = 2
   \<and> Max (spec_ratio ''hello hello'' ` set [''hello'']) = 1
   \<and> is_echo ''hello hello'' [''hello''] (3 / 10) = Inr False
   \<and> length (split_ws ''foo bar'') = 2
   \<and> Max (spec_ratio ''foo bar'' ` set ['''']) = 0
   \<and> is_echo ''foo bar'' [''''] 0 = Inr False"
  by (simp add: text_eval filler_words_def spec_ratio_def is_echo_def)

subsection \<open>The gateway stream\<close>








subsection \<open>The chunker on a long fragment\<close>

lemma strip_empty_iff: "strip s = [] \<longleftrightarrow> (\<forall>c\<in>set s. is_space c)"
proof
  assume "strip s = []"
  then have all: "\<forall>c\<in>set (dropWhile is_space s). is_space c"
    by (simp add: strip_def rstrip_ws_def lstrip_def dropWhile_eq_Nil_conv)
  show "\<forall>c\<in>set s. is_space c"
  proof (rule ccontr)
    assume "\<not> (\<forall>c\<in>set s. is_space c)"
    then have ne: "dropWhile is_space s \<noteq> []"
      by (simp add: dropWhile_eq_Nil_conv)
    then have "\<not> is_space (hd (dropWhile is_space s))"
      by (rule hd_dropWhile)
    moreover from ne have "hd (dropWhile is_space s) \<in> set (dropWhile is_space s)"
      by simp
    ultimately show False using all by blast
  qed
next
  assume "\<forall>c\<in>set s. is_space c"
  then show "strip s = []"
    by (auto simp: strip_def rstrip_ws_def lstrip_def dest: set_dropWhileD)
qed

lemma find_terminator_None_iff:
  "find_terminator s = None \<longleftrightarrow> (\<forall>c\<in>set s. \<not> is_terminator c)"
  by (induction s) auto

lemma rfind_from_snoc:
  "rfind_from ch (xs @ [c]) i found =
     (if c = ch then int (i + length xs) else rfind_from ch xs i found)"
  by (induction xs arbitrary: i found) auto

lemma rfind_from_spec:
  "rfind_from ch s 0 (- 1) = r \<Longrightarrow>
     (r = - 1 \<and> ch \<notin> set s)
     \<or> (0 \<le> r \<and> nat r < length s \<and> s ! nat r = ch
         \<and> (\<forall>j. nat r < j \<and> j < length s \<longrightarrow> s ! j \<noteq> ch))"
proof (induction s arbitrary: r rule: rev_induct)
  case Nil
  then show ?case by simp
next
  case (snoc c xs)
  show ?case
  proof (cases "c = ch")
    case True
    with snoc.prems have "r = int (length xs)" by (simp add: rfind_from_snoc)
    with True show ?thesis by auto
  next
    case False
    with snoc.prems have r: "rfind_from ch xs 0 (- 1) = r" by (simp add: rfind_from_snoc)
    from snoc.IH [OF r] show ?thesis
    proof
      assume "r = - 1 \<and> ch \<notin> set xs"
      with False show ?thesis by auto
    next
      assume a: "0 \<le> r \<and> nat r < length xs \<and> xs ! nat r = ch
         \<and> (\<forall>j. nat r < j \<and> j < length xs \<longrightarrow> xs ! j \<noteq> ch)"
      have "(xs @ [c]) ! j \<noteq> ch" if "nat r < j" "j < length (xs @ [c])" for j
      proof (cases "j < length xs")
        case True
        with a that show ?thesis by (simp add: nth_append)
      next
        case False
        with that have "j = length xs" by simp
        with \<open>c \<noteq> ch\<close> show ?thesis by simp
      qed
      with a show ?thesis by (auto simp: nth_append)
    qed
  qed
qed

lemma rfind_last_space:
  assumes "150 \<le> length t" "50 < i" "i < 150" "t ! i = CHR '' ''"
  shows "\<exists>bp. rfind t (CHR '' '') 150 = int bp \<and> 50 < bp \<and> bp < 150 \<and> t ! bp = CHR '' ''
           \<and> (\<forall>j. bp < j \<and> j < 150 \<longrightarrow> t ! j \<noteq> CHR '' '')"
proof -
  define r where "r = rfind t (CHR '' '') 150"
  then have "rfind_from (CHR '' '') (take 150 t) 0 (- 1) = r"
    by (simp add: rfind_def)
  from rfind_from_spec [OF this] have
    "(r = - 1 \<and> CHR '' '' \<notin> set (take 150 t))
     \<or> (0 \<le> r \<and> nat r < length (take 150 t) \<and> take 150 t ! nat r = CHR '' ''
         \<and> (\<forall>j. nat r < j \<and> j < length (take 150 t) \<longrightarrow> take 150 t ! j \<noteq> CHR '' ''))" .
  moreover have "CHR '' '' \<in> set (take 150 t)"
    using assms by (auto simp: in_set_conv_nth intro!: exI [of _ i])
  ultimately have b: "0 \<le> r" "nat r < 150" "take 150 t ! nat r = CHR '' ''"
      "\<forall>j. nat r < j \<and> j < length (take 150 t) \<longrightarrow> take 150 t ! j \<noteq> CHR '' ''"
    using assms(1) by auto
  have len: "length (take 150 t) = 150" using assms(1) by simp
  have later: "\<forall>j. nat r < j \<and> j < 150 \<longrightarrow> t ! j \<noteq> CHR '' ''"
    using b(4) len by auto
  have "\<not> nat r < i" using later assms(3,4) by blast
  with assms(2) have "50 < nat r" by simp
  moreover have "t ! nat r = CHR '' ''" using b(2,3) by simp
  moreover have "r = int (nat r)" using b(1) by simp
  ultimately show ?thesis using b(2) later r_def by metis
qed

text \<open>
  Claim C4, as the code has it.  Let a fragment of 200 characters without terminal mark
  arrive in an empty buffer, with a space at some offset from 51 to 149.  Then the buffer
  is cut right after the last space below offset 150 (\<open>rfind\<close> searches the offsets 0 to
  149), a space that lies past offset 50.  The part up to and including that space is
  spoken at once and the remainder is spoken when the stream ends, each unless it
  consists of whitespace only.  A space at offset 150 or later does not count: when the
  only spaces past offset 50 are there, nothing is cut.
\<close>

theorem long_fragment_cut:
  assumes "length t = 200"
    and "\<not> list_ex is_terminator t"
    and "\<exists>i. 50 < i \<and> i < 150 \<and> t ! i = CHR '' ''"
  shows "\<exists>bp. 50 < bp \<and> bp < 150 \<and> t ! bp = CHR '' ''
           \<and> (\<forall>j. bp < j \<and> j < 150 \<longrightarrow> t ! j \<noteq> CHR '' '')
           \<and> snd (on_chunk stream_start t)
               = (if strip (take (Suc bp) t) = [] then [] else [take (Suc bp) t])
           \<and> snd (flush (fst (on_chunk stream_start t)))
               = (if strip (drop (Suc bp) t) = [] then [] else [drop (Suc bp) t])"
proof -
  from assms(3) obtain i where i: "50 < i" "i < 150" "t ! i = CHR '' ''"
    by blast
  from assms(1) have "150 \<le> length t" by simp
  from rfind_last_space [OF this i] obtain bp where
    bp: "rfind t (CHR '' '') 150 = int bp" "50 < bp" "bp < 150" "t ! bp = CHR '' ''"
      "\<forall>j. bp < j \<and> j < 150 \<longrightarrow> t ! j \<noteq> CHR '' ''"
    by blast
  have none: "find_terminator t = None"
    using assms(2) by (simp add: find_terminator_None_iff list_ex_iff)
  have cut: "cut_buffer t = Some (take (Suc bp) t, drop (Suc bp) t)"
    using none assms(1) bp(1,2) by (simp add: cut_buffer_def Let_def nat_add_distrib)
  have "snd (on_chunk stream_start t)
          = (if strip (take (Suc bp) t) = [] then [] else [take (Suc bp) t])"
    using cut by (simp add: on_chunk_def stream_start_def Let_def)
  moreover have "text_buffer (fst (on_chunk stream_start t)) = drop (Suc bp) t"
    using cut by (simp add: on_chunk_def stream_start_def Let_def)
  then have "snd (flush (fst (on_chunk stream_start t)))
          = (if strip (drop (Suc bp) t) = [] then [] else [drop (Suc bp) t])"
    by (simp add: flush_def)
  ultimately show ?thesis using bp(2,3,4,5) by blast
qed

lemma find_terminator_replicate:
  "\<not> is_terminator c \<Longrightarrow>
     find_terminator (replicate n c @ s) = map_option (\<lambda>i. n + i) (find_terminator s)"
proof (induction n)
  case 0
  show ?case by (cases "find_terminator s") auto
next
  case (Suc n)
  then show ?case by (cases "find_terminator s") auto
qed

lemma rfind_from_replicate:
  "c \<noteq> ch \<Longrightarrow> rfind_from ch (replicate n c @ s) i found = rfind_from ch s (i + n) found"
  by (induction n arbitrary: i) auto

lemma strip_blank: "\<not> is_space c \<Longrightarrow> c \<in> set s \<Longrightarrow> strip s \<noteq> []"
  by (auto simp: strip_empty_iff)

theorem long_fragment_cut_witness:
  "length (sample_fragment 100) = 200
   \<and> \<not> list_ex is_terminator (sample_fragment 100)
   \<and> sample_fragment 100 ! 100 = CHR '' ''
   \<and> snd (on_chunk stream_start (sample_fragment 100)) = [replicate 100 (CHR ''a'') @ '' '']
   \<and> snd (flush (fst (on_chunk stream_start (sample_fragment 100)))) = [replicate 99 (CHR ''b'')]"
proof -
  have a: "length (sample_fragment 100) = 200" by (simp add: sample_fragment_def)
  have b: "\<not> list_ex is_terminator (sample_fragment 100)"
    by (simp add: sample_fragment_def list_ex_iff is_terminator_def)
  have c: "sample_fragment 100 ! 100 = CHR '' ''"
    by (simp add: sample_fragment_def nth_append)
  then have d: "\<exists>i. 50 < i \<and> i < 150 \<and> sample_fragment 100 ! i = CHR '' ''"
    by (intro exI [of _ 100]) simp
  from long_fragment_cut [OF a b d] obtain bp where
    bp: "bp < 150" "sample_fragment 100 ! bp = CHR '' ''"
      "snd (on_chunk stream_start (sample_fragment 100))
         = (if strip (take (Suc bp) (sample_fragment 100)) = [] then []
            else [take (Suc bp) (sample_fragment 100)])"
      "snd (flush (fst (on_chunk stream_start (sample_fragment 100))))
         = (if strip (drop (Suc bp) (sample_fragment 100)) = [] then []
            else [drop (Suc bp) (sample_fragment 100)])"
    by blast
  have "bp = 100"
    using bp(1,2) by (auto simp: sample_fragment_def nth_append nth_Cons' split: if_splits)
  moreover have "strip (replicate 100 (CHR ''a'') @ '' '') \<noteq> []"
    by (rule strip_blank [of "CHR ''a''"]) (simp_all add: is_space_def)
  moreover have "strip (replicate 99 (CHR ''b'')) \<noteq> []"
    by (rule strip_blank [of "CHR ''b''"]) (simp_all add: is_space_def)
  ultimately show ?thesis using a b c bp(3,4) by (simp add: sample_fragment_def)
qed

lemma sample_160: "cut_buffer (sample_fragment 160) = None"
  using rfind_from_replicate [of "CHR ''a''" "CHR '' ''" 150 "[]" 0 "- 1"]
    find_terminator_replicate [of "CHR ''a''" 160 "'' '' @ replicate 39 (CHR ''b'')"]
    find_terminator_replicate [of "CHR ''b''" 39 "[]"]
  by (simp add: cut_buffer_def sample_fragment_def is_terminator_def rfind_def Let_def)

lemma blank_tail_cut:
  "cut_buffer blank_tail_fragment
     = Some (replicate 149 (CHR ''a'') @ '' '', replicate 50 (CHR '' ''))"
proof -
  have t: "find_terminator blank_tail_fragment = None"
    by (simp add: find_terminator_None_iff blank_tail_fragment_def is_terminator_def)
  have "take 150 blank_tail_fragment = replicate 149 (CHR ''a'') @ '' ''"
    by (simp add: blank_tail_fragment_def)
  then have r: "rfind blank_tail_fragment (CHR '' '') 150 = 149"
    using rfind_from_replicate [of "CHR ''a''" "CHR '' ''" 149 "'' ''" 0 "- 1"]
    by (simp add: rfind_def)
  have "drop 150 blank_tail_fragment = replicate 50 (CHR '' '')"
    by (simp add: blank_tail_fragment_def)
  moreover have "take 150 blank_tail_fragment = replicate 149 (CHR ''a'') @ '' ''"
    by (simp add: blank_tail_fragment_def)
  moreover have "length blank_tail_fragment = 200"
    by (simp add: blank_tail_fragment_def)
  ultimately show ?thesis using t r by (simp add: cut_buffer_def Let_def)
qed

theorem long_fragment_cut_counterexample:
  "length (sample_fragment 160) = 200
   \<and> \<not> list_ex is_terminator (sample_fragment 160)
   \<and> sample_fragment 160 ! 160 = CHR '' ''
   \<and> snd (on_chunk stream_start (sample_fragment 160)) = []
   \<and> snd (flush (fst (on_chunk stream_start (sample_fragment 160)))) = [sample_fragment 160]
   \<and> length blank_tail_fragment = 200
   \<and> \<not> list_ex is_terminator blank_tail_fragment
   \<and> blank_tail_fragment ! 149 = CHR '' ''
   \<and> snd (on_chunk stream_start blank_tail_fragment) = [replicate 149 (CHR ''a'') @ '' '']
   \<and> snd (flush (fst (on_chunk stream_start blank_tail_fragment))) = []"
proof -
  have "strip (sample_fragment 160) \<noteq> []"
    by (rule strip_blank [of "CHR ''a''"]) (simp_all add: is_space_def sample_fragment_def)
  then have a: "length (sample_fragment 160) = 200
   \<and> \<not> list_ex is_terminator (sample_fragment 160)
   \<and> sample_fragment 160 ! 160 = CHR '' ''
   \<and> snd (on_chunk stream_start (sample_fragment 160)) = []
   \<and> snd (flush (fst (on_chunk stream_start (sample_fragment 160)))) = [sample_fragment 160]"
    using sample_160
    by (simp add: on_chunk_def flush_def stream_start_def sample_fragment_def list_ex_iff
          is_terminator_def nth_append)
  have s1: "strip (replicate 149 (CHR ''a'') @ '' '') \<noteq> []"
    by (rule strip_blank [of "CHR ''a''"]) (simp_all add: is_space_def)
  have s2: "strip (replicate 50 (CHR '' '')) = []"
    by (simp add: strip_empty_iff is_space_def)
  have b: "length blank_tail_fragment = 200
   \<and> \<not> list_ex is_terminator blank_tail_fragment
   \<and> blank_tail_fragment ! 149 = CHR '' ''
   \<and> snd (on_chunk stream_start blank_tail_fragment) = [replicate 149 (CHR ''a'') @ '' '']
   \<and> snd (flush (fst (on_chunk stream_start blank_tail_fragment))) = []"
    using blank_tail_cut s1 s2
    by (simp add: on_chunk_def flush_def stream_start_def list_ex_iff)
       (simp add: blank_tail_fragment_def is_terminator_def nth_append)
  from a b show ?thesis by simp
qed

subsection \<open>Evaluation of the arbitrator\<close>

lemmas arb_eval = gate_def is_echo_def run_turn_def intercept_and_forward_def
  initial_state_def is_simple_chat_def is_farewell_def SIMPLE_CHAT_PATTERNS_def
  question_words_def FAREWELL_PATTERNS_def farewell_keywords_def filler_words_def
  send_acknowledgment_def send_filler_def pick_phrase_def IMMEDIATE_PHRASES_def
  FILLER_PHRASES_def ack_sleep_def filler_sleep_def stream_start_def on_chunk_def flush_def
  cut_buffer_def is_terminator_def finish_response_def finally_reset_def rfind_def
  truediv_def Let_def

subsection \<open>The chunker keeps every word\<close>

lemma cut_buffer_parts: "cut_buffer b = Some (x, r) \<Longrightarrow> b = x @ r"
  by (auto simp: cut_buffer_def Let_def split: option.splits if_splits)

lemma strip_mono: "strip x \<noteq> [] \<Longrightarrow> set x \<subseteq> set y \<Longrightarrow> strip y \<noteq> []"
  by (auto simp: strip_empty_iff)

lemma on_chunk_inv: "sent_inv st \<Longrightarrow> sent_inv (fst (on_chunk st chunk))"
proof -
  assume inv: "sent_inv st"
  let ?b = "text_buffer st @ chunk" and ?f = "full_response st @ chunk"
  have sub: "set ?b \<subseteq> set ?f" using inv by (auto simp: sent_inv_def)
  have old: "0 < chunks_sent st \<longrightarrow> strip ?f \<noteq> []"
    using inv by (auto simp: sent_inv_def strip_empty_iff)
  show ?thesis
  proof (cases "cut_buffer ?b")
    case None
    then show ?thesis using sub old by (simp add: on_chunk_def sent_inv_def Let_def)
  next
    case (Some p)
    obtain x r where p: "p = (x, r)" by (cases p)
    with Some have b: "?b = x @ r" by (simp add: cut_buffer_parts)
    then have xr: "set x \<subseteq> set ?f" "set r \<subseteq> set ?f"
      using sub by (metis Un_subset_iff set_append)+
    have "strip x \<noteq> [] \<Longrightarrow> strip ?f \<noteq> []"
      using xr(1) strip_mono by blast
    then show ?thesis
      using Some p xr(2) old by (auto simp: on_chunk_def sent_inv_def Let_def)
  qed
qed

lemma feed_Cons_fst: "fst (feed st ((t, c) # rest)) = fst (feed (fst (on_chunk st c)) rest)"
  by (cases "on_chunk st c"; cases "feed (fst (on_chunk st c)) rest") simp

lemma feed_Cons_snd:
  "snd (feed st ((t, c) # rest))
     = map (\<lambda>x. (t, TTSSpeak x)) (snd (on_chunk st c)) @ snd (feed (fst (on_chunk st c)) rest)"
  by (cases "on_chunk st c"; cases "feed (fst (on_chunk st c)) rest") simp

lemma feed_inv: "sent_inv st \<Longrightarrow> sent_inv (fst (feed st ds))"
proof (induction ds arbitrary: st)
  case Nil
  then show ?case by simp
next
  case (Cons d ds)
  obtain t chunk where d: "d = (t, chunk)" by (cases d)
  from Cons.prems have "sent_inv (fst (on_chunk st chunk))" by (rule on_chunk_inv)
  from Cons.IH [OF this] show ?case
    using d by (simp only: feed_Cons_fst)
qed

lemma on_chunk_full: "full_response (fst (on_chunk st chunk)) = full_response st @ chunk"
  by (simp add: on_chunk_def Let_def split: option.splits prod.splits)

lemma feed_full:
  "full_response (fst (feed st ds)) = full_response st @ concat (map snd ds)"
proof (induction ds arbitrary: st)
  case Nil
  then show ?case by simp
next
  case (Cons d ds)
  obtain t chunk where d: "d = (t, chunk)" by (cases d)
  from Cons.IH [of "fst (on_chunk st chunk)"] show ?case
    using d by (simp add: on_chunk_full feed_Cons_fst del: feed.simps)
qed

lemma flush_full: "full_response (fst (flush st)) = full_response st"
  by (simp add: flush_def)

lemma flush_sent:
  assumes "sent_inv st" "1 \<le> chunks_sent (fst (flush st))"
  shows "strip (full_response st) \<noteq> []"
proof (cases "strip (text_buffer st) = []")
  case True
  with assms show ?thesis by (simp add: flush_def sent_inv_def)
next
  case False
  moreover from assms(1) have "set (text_buffer st) \<subseteq> set (full_response st)"
    by (simp add: sent_inv_def)
  ultimately show ?thesis by (rule strip_mono)
qed

lemma stream_content:
  assumes "1 \<le> chunks_sent (fst (flush (fst (feed stream_start ds))))"
  shows "strip (full_response (fst (flush (fst (feed stream_start ds))))) \<noteq> []"
    and "full_response (fst (flush (fst (feed stream_start ds)))) = concat (map snd ds)"
proof -
  have "sent_inv stream_start" by (simp add: sent_inv_def stream_start_def)
  then have "sent_inv (fst (feed stream_start ds))" by (rule feed_inv)
  from flush_sent [OF this assms]
  show "strip (full_response (fst (flush (fst (feed stream_start ds))))) \<noteq> []"
    by (simp add: flush_full)
  show "full_response (fst (flush (fst (feed stream_start ds)))) = concat (map snd ds)"
    by (simp add: flush_full feed_full stream_start_def)
qed

lemma feed_no_end: "filter (\<lambda>e. snd e = EndFrame) (snd (feed st ds)) = []"
proof (induction ds arbitrary: st)
  case Nil
  then show ?case by simp
next
  case (Cons d ds)
  obtain t chunk where d: "d = (t, chunk)" by (cases d)
  from Cons.IH [of "fst (on_chunk st chunk)"] show ?case
    using d by (simp add: feed_Cons_snd filter_empty_conv del: feed.simps)
qed

lemma filter_speak: "filter (\<lambda>e. snd e = EndFrame) (map (\<lambda>x. (t, TTSSpeak x)) xs) = []"
  by (simp add: filter_empty_conv)

subsection \<open>The shared state across a turn\<close>

lemma timers_keep:
  "recent_bot_responses (fst (send_acknowledgment s r)) = recent_bot_responses s"
  "last_processed_message (fst (send_acknowledgment s r)) = last_processed_message s"
  "recent_bot_responses (fst (send_filler s r)) = recent_bot_responses s"
  "last_processed_message (fst (send_filler s r)) = last_processed_message s"
  by (simp_all add: send_acknowledgment_def send_filler_def split: prod.splits)

lemma run_turn_last_processed:
  "last_processed_message (snd (run_turn s t0 m sc)) = last_processed_message s"
  by (simp add: run_turn_def Let_def finish_response_def finally_reset_def timers_keep
        split: stream_end.splits)

lemma run_turn_completed:
  assumes "snd (stream_close sc) = Returned"
    and "1 \<le> chunks_sent (fst (flush (fst (feed stream_start (stream_deltas sc)))))"
  shows "last_bot_speech_end (snd (run_turn s t0 m sc))
           = fst (stream_close sc) + real (length (concat (map snd (stream_deltas sc)))) / 15"
    and "recent_bot_responses (snd (run_turn s t0 m sc))
           = (if 3 \<le> length (recent_bot_responses s) then tl (recent_bot_responses s)
              else recent_bot_responses s) @ [concat (map snd (stream_deltas sc))]"
    and "filter (\<lambda>e. snd e = EndFrame) (fst (run_turn s t0 m sc))
           = (if is_farewell m
              then [(fst (stream_close sc) + post_bot_delay sc + 3, EndFrame)] else [])"
proof -
  obtain st out where fl: "flush (fst (feed stream_start (stream_deltas sc))) = (st, out)"
    by (cases "flush (fst (feed stream_start (stream_deltas sc)))")
  with assms(2) have n: "chunks_sent st \<noteq> 0" by simp
  from stream_content [OF assms(2)] fl
  have c: "strip (full_response st) \<noteq> []"
    and f: "full_response st = concat (map snd (stream_deltas sc))"
    by simp_all
  show "last_bot_speech_end (snd (run_turn s t0 m sc))
           = fst (stream_close sc) + real (length (concat (map snd (stream_deltas sc)))) / 15"
    using assms(1) fl n c f
    by (simp add: run_turn_def Let_def finish_response_def finally_reset_def)
  show "recent_bot_responses (snd (run_turn s t0 m sc))
           = (if 3 \<le> length (recent_bot_responses s) then tl (recent_bot_responses s)
              else recent_bot_responses s) @ [concat (map snd (stream_deltas sc))]"
  proof -
    have "recent_bot_responses (snd (run_turn s t0 m sc))
            = (if 3 < length (recent_bot_responses s @ [concat (map snd (stream_deltas sc))])
               then tl (recent_bot_responses s @ [concat (map snd (stream_deltas sc))])
               else recent_bot_responses s @ [concat (map snd (stream_deltas sc))])"
      using assms(1) fl n c f
      by (simp add: run_turn_def Let_def finish_response_def finally_reset_def timers_keep)
    moreover have "tl (recent_bot_responses s @ [concat (map snd (stream_deltas sc))])
            = tl (recent_bot_responses s) @ [concat (map snd (stream_deltas sc))]"
      if "3 \<le> length (recent_bot_responses s)"
      using that by (cases "recent_bot_responses s") simp_all
    ultimately show ?thesis by simp
  qed
  show "filter (\<lambda>e. snd e = EndFrame) (fst (run_turn s t0 m sc))
           = (if is_farewell m
              then [(fst (stream_close sc) + post_bot_delay sc + 3, EndFrame)] else [])"
    using assms(1) fl n c f
    by (simp add: run_turn_def Let_def feed_no_end filter_speak)
qed



subsection \<open>Completion of a turn\<close>




text \<open>
  Claim C7.  When the stream completes and at least one chunk has been sent, the turn
  ends with \<open>last_bot_speech_end\<close> equal to the completion time plus the length of the
  whole response divided by 15, which is not before the completion time, and with the
  whole response appended to \<open>recent_bot_responses\<close> (the oldest entry leaves when
  there were three already).
\<close>

theorem cooldown_after_response:
  assumes "snd (stream_close sc) = Returned"
    and "1 \<le> chunks_sent (fst (flush (fst (feed stream_start (stream_deltas sc)))))"
  shows "let now = fst (stream_close sc);
             response = concat (map snd (stream_deltas sc));
             s' = snd (run_turn s t0 user_message sc)
         in last_bot_speech_end s' = now + real (length response) / 15
            \<and> now \<le> last_bot_speech_end s'
            \<and> recent_bot_responses s'
                = (if 3 \<le> length (recent_bot_responses s) then tl (recent_bot_responses s)
                   else recent_bot_responses s) @ [response]"
  using run_turn_completed(1,2) [OF assms, of s t0 user_message]
  by (simp add: Let_def)

theorem cooldown_after_response_witness:
  "chunks_sent (fst (flush (fst (feed stream_start
      [(101, ''Bye for now. Talk''), (102, '' soon'')])))) = 2
   \<and> last_bot_speech_end (snd (run_turn initial_state 100 ''ok goodbye''
        \<lparr>post_user_delay = 0, stream_deltas = [(101, ''Bye for now. Talk''), (102, '' soon'')],
         stream_close = (103, Returned), post_bot_delay = 1 / 2, ack_choice = 0,
         filler_choice = 0\<rparr>)) = 103 + 22 / 15
   \<and> recent_bot_responses (snd (run_turn initial_state 100 ''ok goodbye''
        \<lparr>post_user_delay = 0, stream_deltas = [(101, ''Bye for now. Talk''), (102, '' soon'')],
         stream_close = (103, Returned), post_bot_delay = 1 / 2, ack_choice = 0,
         filler_choice = 0\<rparr>)) = [''Bye for now. Talk soon'']"
proof -
  have n: "chunks_sent (fst (flush (fst (feed stream_start
      [(101, ''Bye for now. Talk''), (102, '' soon'')])))) = 2"
    by (simp add: arb_eval text_eval)
  from n cooldown_after_response [of "\<lparr>post_user_delay = 0,
         stream_deltas = [(101, ''Bye for now. Talk''), (102, '' soon'')],
         stream_close = (103, Returned), post_bot_delay = 1 / 2, ack_choice = 0,
         filler_choice = 0\<rparr>" initial_state 100 "''ok goodbye''"]
  show ?thesis by (simp add: Let_def initial_state_def)
qed



subsection \<open>Barge-in\<close>








subsection \<open>Duplicates\<close>

text \<open>
  Claim C6, as the code has it.  An utterance whose text equals
  \<open>last_processed_message\<close> is dropped at once: no event at all (so no gateway call),
  and the shared state is unchanged.  In particular, when an utterance has been accepted
  by the gate and its turn has run, the same text arriving next is dropped in this way.
  The text of an utterance that the gate dropped is not recorded, so a repetition of it
  is judged afresh.
\<close>

theorem duplicate_dropped:
  "(user_message = last_processed_message s \<longrightarrow>
      intercept_and_forward s now user_message sc = ([], s))
   \<and> (gate s now user_message = (Accept, s1) \<longrightarrow>
        (let s2 = snd (intercept_and_forward s now user_message sc)
         in intercept_and_forward s2 later user_message sc2 = ([], s2)))"
proof -
  have drop: "intercept_and_forward s' t (last_processed_message s') sc' = ([], s')"
    for s' t sc'
    by (simp add: intercept_and_forward_def gate_def)
  have "intercept_and_forward (snd (intercept_and_forward s now user_message sc)) later
          user_message sc2 = ([], snd (intercept_and_forward s now user_message sc))"
    if "gate s now user_message = (Accept, s1)"
  proof -
    from that have "last_processed_message s1 = user_message"
      by (auto simp: gate_def Let_def split: if_splits sum.splits bool.splits)
    with that
    have "last_processed_message (snd (intercept_and_forward s now user_message sc))
            = user_message"
      by (simp add: intercept_and_forward_def run_turn_last_processed)
    with drop [of "snd (intercept_and_forward s now user_message sc)" later sc2]
    show ?thesis by simp
  qed
  moreover have "intercept_and_forward s now user_message sc = ([], s)"
    if "user_message = last_processed_message s"
    using that drop [of s now sc] by simp
  ultimately show ?thesis by (simp add: Let_def)
qed

lemma time_not_simple: "\<not> is_simple_chat ''what time is it''"
  by (simp add: is_simple_chat_def SIMPLE_CHAT_PATTERNS_def question_words_def text_eval)

theorem duplicate_dropped_witness:
  "gate initial_state 100 ''what time is it''
     = (Accept, initial_state\<lparr>processing_in_progress := True,
                              last_processed_message := ''what time is it''\<rparr>)
   \<and> intercept_and_forward
        (snd (intercept_and_forward initial_state 100 ''what time is it'' reply_script))
        110 ''what time is it'' silent_script
     = ([], snd (intercept_and_forward initial_state 100 ''what time is it'' reply_script))"
proof -
  have g: "gate initial_state 100 ''what time is it''
     = (Accept, initial_state\<lparr>processing_in_progress := True,
                              last_processed_message := ''what time is it''\<rparr>)"
    by (simp add: gate_def initial_state_def is_echo_def Let_def)
  from g duplicate_dropped [of "''what time is it''" initial_state 100 reply_script
      "initial_state\<lparr>processing_in_progress := True,
                    last_processed_message := ''what time is it''\<rparr>" 110 silent_script]
  show ?thesis by (simp add: Let_def)
qed

theorem duplicate_dropped_counterexample:
  "intercept_and_forward (initial_state\<lparr>last_bot_speech_end := 100\<rparr>) (201 / 2)
       ''what time is it'' reply_script
     = ([], initial_state\<lparr>last_bot_speech_end := 100\<rparr>)
   \<and> fst (intercept_and_forward (initial_state\<lparr>last_bot_speech_end := 100\<rparr>) 102
            ''what time is it'' reply_script)
     = [(102, PostTranscript ''user'' ''what time is it''),
        (102, GatewayStream ''what time is it''),
        (103, TTSSpeak ''It is noon.''),
        (104, PostTranscript ''assistant'' ''It is noon.'')]
   \<and> last_processed_message
        (snd (intercept_and_forward (initial_state\<lparr>last_bot_speech_end := 100\<rparr>) 102
            ''what time is it'' reply_script)) = ''what time is it''"
proof -
  have a: "intercept_and_forward (initial_state\<lparr>last_bot_speech_end := 100\<rparr>) (201 / 2)
       ''what time is it'' reply_script
     = ([], initial_state\<lparr>last_bot_speech_end := 100\<rparr>)"
    by (simp add: intercept_and_forward_def gate_def initial_state_def Let_def)
  have g: "gate (initial_state\<lparr>last_bot_speech_end := 100\<rparr>) 102 ''what time is it''
     = (Accept, initial_state\<lparr>last_bot_speech_end := 100, processing_in_progress := True,
                              last_processed_message := ''what time is it''\<rparr>)"
    by (simp add: gate_def initial_state_def is_echo_def Let_def)
  have nf: "\<not> is_farewell ''what time is it''"
    by (simp add: is_farewell_def FAREWELL_PATTERNS_def farewell_keywords_def text_eval)
  have fd: "feed stream_start [(103, ''It is noon.'')]
     = (\<lparr>full_response = ''It is noon.'', text_buffer = [], chunks_sent = 1,
         first_chunk_received = True\<rparr>, [(103, TTSSpeak ''It is noon.'')])"
    by (simp add: on_chunk_def cut_buffer_def is_terminator_def stream_start_def Let_def
          text_eval)
  have b: "fst (intercept_and_forward (initial_state\<lparr>last_bot_speech_end := 100\<rparr>) 102
            ''what time is it'' reply_script)
     = [(102, PostTranscript ''user'' ''what time is it''),
        (102, GatewayStream ''what time is it''),
        (103, TTSSpeak ''It is noon.''),
        (104, PostTranscript ''assistant'' ''It is noon.'')]"
    using nf time_not_simple
    by (simp add: intercept_and_forward_def g run_turn_def Let_def reply_script_def fd
          ack_sleep_def filler_sleep_def flush_def text_eval del: feed.simps)
  have c: "last_processed_message
        (snd (intercept_and_forward (initial_state\<lparr>last_bot_speech_end := 100\<rparr>) 102
            ''what time is it'' reply_script)) = ''what time is it''"
    by (simp add: intercept_and_forward_def g run_turn_last_processed)
  from a b c show ?thesis by simp
qed

subsection \<open>The filler timer\<close>

lemma pick_phrase_mem:
  assumes "phrases \<noteq> []"
  shows "fst (pick_phrase phrases recent cap r) \<in> set phrases"
proof -
  let ?a = "filter (\<lambda>p. p \<notin> set recent) phrases"
  let ?a1 = "if ?a = [] then phrases else ?a"
  have ne: "?a1 \<noteq> []" using assms by simp
  then have "r mod length ?a1 < length ?a1" by simp
  then have "?a1 ! (r mod length ?a1) \<in> set ?a1" by (rule nth_mem)
  moreover have "set ?a1 \<subseteq> set phrases" by auto
  ultimately show ?thesis by (auto simp: pick_phrase_def Let_def)
qed

lemma phrases_nonempty: "IMMEDIATE_PHRASES \<noteq> []" "FILLER_PHRASES \<noteq> []"
  by (simp_all add: IMMEDIATE_PHRASES_def FILLER_PHRASES_def)

text \<open>
  Claim C1, as the code behaves.  In a turn for an utterance that is not simple chat,
  with no delta from the gateway and a stream that ends later than four seconds after
  the timers were started, the acknowledgment is spoken three seconds and the filler
  four seconds after the timers were started: the filler follows the acknowledgment by
  one second, not by four.  Both tasks are created at the same moment and each sleeps
  on its own.
\<close>

theorem filler_four_after_start:
  assumes "\<not> is_simple_chat user_message"
    and "stream_deltas sc = []"
    and "t0 + post_user_delay sc + 4 < fst (stream_close sc)"
  shows "\<exists>a f. a \<in> set IMMEDIATE_PHRASES \<and> f \<in> set FILLER_PHRASES
           \<and> fst (run_turn s t0 user_message sc)
               = [(t0, PostTranscript ''user'' user_message),
                  (t0 + post_user_delay sc, GatewayStream user_message),
                  (t0 + post_user_delay sc + 3, TTSSpeak a),
                  (t0 + post_user_delay sc + 4, TTSSpeak f),
                  (fst (stream_close sc), OriginalPush)]"
proof -
  let ?ack = "send_acknowledgment s (ack_choice sc)"
  let ?fil = "send_filler (fst ?ack) (filler_choice sc)"
  have a: "snd ?ack \<in> set IMMEDIATE_PHRASES"
    using pick_phrase_mem [of IMMEDIATE_PHRASES "recent_immediate s" 3 "ack_choice sc"]
    by (cases "pick_phrase IMMEDIATE_PHRASES (recent_immediate s) 3 (ack_choice sc)")
       (simp add: send_acknowledgment_def phrases_nonempty)
  have f: "snd ?fil \<in> set FILLER_PHRASES"
    using pick_phrase_mem [of FILLER_PHRASES "recent_fillers (fst ?ack)" 4 "filler_choice sc"]
    by (cases "pick_phrase FILLER_PHRASES (recent_fillers (fst ?ack)) 4 (filler_choice sc)")
       (simp add: send_filler_def phrases_nonempty)
  have "fst (run_turn s t0 user_message sc)
               = [(t0, PostTranscript ''user'' user_message),
                  (t0 + post_user_delay sc, GatewayStream user_message),
                  (t0 + post_user_delay sc + 3, TTSSpeak (snd ?ack)),
                  (t0 + post_user_delay sc + 4, TTSSpeak (snd ?fil)),
                  (fst (stream_close sc), OriginalPush)]"
    using assms
    by (cases "snd (stream_close sc)")
       (simp_all add: run_turn_def Let_def ack_sleep_def filler_sleep_def flush_def
          stream_start_def strip_def lstrip_def rstrip_ws_def)
  with a f show ?thesis by blast
qed

theorem filler_four_after_start_witness:
  "\<not> is_simple_chat ''what is my calendar today''
   \<and> fst (run_turn initial_state 100 ''what is my calendar today'' silent_script)
       = [(100, PostTranscript ''user'' ''what is my calendar today''),
          (100, GatewayStream ''what is my calendar today''),
          (103, TTSSpeak ''Let me check on that.''),
          (104, TTSSpeak ''Still working on that...''),
          (220, OriginalPush)]"
proof -
  have ns: "\<not> is_simple_chat ''what is my calendar today''"
    by (simp add: is_simple_chat_def SIMPLE_CHAT_PATTERNS_def question_words_def text_eval)
  from filler_four_after_start [OF ns, of silent_script 100 initial_state]
  obtain a f where
    "fst (run_turn initial_state 100 ''what is my calendar today'' silent_script)
       = [(100, PostTranscript ''user'' ''what is my calendar today''),
          (100, GatewayStream ''what is my calendar today''),
          (103, TTSSpeak a), (104, TTSSpeak f), (220, OriginalPush)]"
    by (auto simp: silent_script_def)
  moreover have "fst (run_turn initial_state 100 ''what is my calendar today'' silent_script)
       ! 2 = (103, TTSSpeak ''Let me check on that.'')"
    using ns
    by (simp add: run_turn_def Let_def silent_script_def ack_sleep_def filler_sleep_def
          send_acknowledgment_def send_filler_def pick_phrase_def IMMEDIATE_PHRASES_def
          FILLER_PHRASES_def initial_state_def stream_start_def)
  moreover have "fst (run_turn initial_state 100 ''what is my calendar today'' silent_script)
       ! 3 = (104, TTSSpeak ''Still working on that...'')"
    using ns
    by (simp add: run_turn_def Let_def silent_script_def ack_sleep_def filler_sleep_def
          send_acknowledgment_def send_filler_def pick_phrase_def IMMEDIATE_PHRASES_def
          FILLER_PHRASES_def initial_state_def stream_start_def)
  ultimately show ?thesis using ns by simp
qed

end
